theory Spec2Isabelle
  imports Complex_Main "HOL-Library.Word" "HOL-Library.AList"
begin

section \<open>Machine values\<close>

text \<open>
  The program (twap-from-file.cpp) uses \<open>int\<close> for times, order ids and order counts
  and \<open>double\<close> for prices.

  \<^item> \<open>int\<close> is a 32-bit word. Reading it as a signed number is \<open>sint\<close>; \<open>+\<close> and
    \<open>-\<close> wrap around. ISO C++ leaves a signed overflow undefined; the two's
    complement wrap-around is what the usual compilers produce for it.
  \<^item> \<open>double\<close> is an IEEE 754 binary64 value: the quiet NaN, one of the two
    infinities, or a real number. The program tests doubles with \<open>isnan\<close>, copies
    them, orders them as map keys and, in one place, divides, multiplies and adds
    them; each of these operations rounds its exact result to the nearest double,
    a tie to the even one. The two zeros are one \<open>Val 0\<close>: they are equal under
    \<open>==\<close> and \<open><\<close> and differ only in the sign of a quotient by zero, which the
    program never forms.
\<close>

type_synonym cint = "32 word"

datatype double = NaN | PlusInf | MinusInf | Val real

fun isnan :: "double \<Rightarrow> bool" where
  "isnan NaN = True"
| "isnan _ = False"

text \<open>Conversion \<open>int \<rightarrow> double\<close> is exact: every 32-bit integer is a double.\<close>

definition double_of_int :: "cint \<Rightarrow> double" where
  "double_of_int i = Val (real_of_int (sint i))"

text \<open>
  Conversion \<open>double \<rightarrow> int\<close> truncates towards zero. The program only converts
  back a double that came from an \<open>int\<close>; a value outside the range of \<open>int\<close>, an
  infinity or a NaN has no defined conversion and gives the x86 "integer
  indefinite" value here.
\<close>

fun int_of_double :: "double \<Rightarrow> cint" where
  "int_of_double (Val r) =
     (let k = (if r < 0 then \<lceil>r\<rceil> else \<lfloor>r\<rfloor>) in
      if - (2 ^ 31) \<le> k \<and> k < 2 ^ 31 then word_of_int k else word_of_int (- (2 ^ 31)))"
| "int_of_double _ = word_of_int (- (2 ^ 31))"

text \<open>
  Rounding to the nearest double. The finite doubles are the numbers
  \<open>m * 2 ^ e\<close> with \<open>\<bar>m\<bar> < 2 ^ 53\<close> and \<open>- 1074 \<le> e \<le> 971\<close>. Around a real
  \<open>x\<close> with \<open>2 ^ k \<le> \<bar>x\<bar> < 2 ^ (k + 1)\<close> they are \<open>2 ^ (k - 52)\<close> apart, and
  \<open>2 ^ (- 1074)\<close> apart below \<open>2 ^ (- 1022)\<close> (\<open>spacing\<close>). A real is rounded to
  the nearest multiple of the spacing, a tie to the even multiple
  (\<open>round_half_even\<close>); a result beyond the largest double is an infinity.
\<close>

definition round_half_even :: "real \<Rightarrow> int" where
  "round_half_even y =
     (if y - of_int \<lfloor>y\<rfloor> < 1 / 2 then \<lfloor>y\<rfloor>
      else if 1 / 2 < y - of_int \<lfloor>y\<rfloor> then \<lfloor>y\<rfloor> + 1
      else if even \<lfloor>y\<rfloor> then \<lfloor>y\<rfloor> else \<lfloor>y\<rfloor> + 1)"

definition max_double :: real where
  "max_double = (2 ^ 53 - 1) * 2 ^ 971"

definition spacing :: "real \<Rightarrow> real" where
  "spacing x = 2 powr of_int (max \<lfloor>log 2 \<bar>x\<bar>\<rfloor> (- 1022) - 52)"

definition round_double :: "real \<Rightarrow> double" where
  "round_double x =
     (if x = 0 then Val 0
      else
        (let r = of_int (round_half_even (x / spacing x)) * spacing x in
         if max_double < r then PlusInf
         else if r < - max_double then MinusInf
         else Val r))"

text \<open>
  Arithmetic on doubles: the exact result, rounded. A NaN operand gives NaN, and
  so do \<open>\<infinity> - \<infinity>\<close>, \<open>0 * \<infinity>\<close>, \<open>0 / 0\<close> and \<open>\<infinity> / \<infinity>\<close>.
\<close>

fun dadd :: "double \<Rightarrow> double \<Rightarrow> double" where
  "dadd (Val a) (Val b) = round_double (a + b)"
| "dadd NaN _ = NaN"
| "dadd _ NaN = NaN"
| "dadd PlusInf MinusInf = NaN"
| "dadd MinusInf PlusInf = NaN"
| "dadd PlusInf _ = PlusInf"
| "dadd _ PlusInf = PlusInf"
| "dadd MinusInf _ = MinusInf"
| "dadd _ MinusInf = MinusInf"

fun dmul :: "double \<Rightarrow> double \<Rightarrow> double" where
  "dmul (Val a) (Val b) = round_double (a * b)"
| "dmul NaN _ = NaN"
| "dmul _ NaN = NaN"
| "dmul PlusInf (Val b) = (if b = 0 then NaN else if 0 < b then PlusInf else MinusInf)"
| "dmul MinusInf (Val b) = (if b = 0 then NaN else if 0 < b then MinusInf else PlusInf)"
| "dmul (Val a) PlusInf = (if a = 0 then NaN else if 0 < a then PlusInf else MinusInf)"
| "dmul (Val a) MinusInf = (if a = 0 then NaN else if 0 < a then MinusInf else PlusInf)"
| "dmul PlusInf PlusInf = PlusInf"
| "dmul MinusInf MinusInf = PlusInf"
| "dmul PlusInf MinusInf = MinusInf"
| "dmul MinusInf PlusInf = MinusInf"

text \<open>
  A finite quotient by zero is an infinity with the sign of the dividend (the
  zero taken as \<open>+0\<close>). \<open>next_price\<close> never divides by zero (lemma
  \<open>new_total_time_nonzero\<close>).
\<close>

fun ddiv :: "double \<Rightarrow> double \<Rightarrow> double" where
  "ddiv (Val a) (Val b) =
     (if b = 0 then (if a = 0 then NaN else if 0 < a then PlusInf else MinusInf)
      else round_double (a / b))"
| "ddiv NaN _ = NaN"
| "ddiv _ NaN = NaN"
| "ddiv (Val a) _ = Val 0"
| "ddiv PlusInf (Val b) = (if 0 \<le> b then PlusInf else MinusInf)"
| "ddiv MinusInf (Val b) = (if 0 \<le> b then MinusInf else PlusInf)"
| "ddiv _ _ = NaN"


section \<open>TWAP: the time-weighted average accumulator\<close>

text \<open>
  Class \<open>TWAP\<close>: the fields \<open>last_price_\<close>, \<open>last_time_\<close>, \<open>avg_price_\<close> and
  \<open>total_time_\<close>. The method \<open>avg_price()\<close> returns the field \<open>avg_price_\<close>: the
  record selector \<open>avg_price\<close> is that method.
\<close>

record TWAP =
  last_price :: double
  last_time :: cint
  avg_price :: double
  total_time :: cint

text \<open>The constructor \<open>TWAP::TWAP()\<close>.\<close>

definition TWAP_init :: TWAP where
  "TWAP_init = \<lparr>last_price = NaN, last_time = 0, avg_price = NaN, total_time = 0\<rparr>"

text \<open>
  \<open>TWAP::next_price(time, price)\<close>. The early \<open>return\<close> on a negative \<open>add_time\<close>
  leaves every field as it was. In the blend, \<open>total_time_ + add_time\<close> is an
  \<open>int\<close> addition converted to \<open>double\<close>, and the assignment to \<open>total_time_\<close>
  converts it back.
\<close>

definition next_price :: "cint \<Rightarrow> double \<Rightarrow> TWAP \<Rightarrow> TWAP" where
  "next_price time price s =
    (if \<not> isnan (last_price s) then
       (let add_time = time - last_time s in
        if sint add_time < 0 then s
        else
          (let s1 =
             (if 0 < sint (total_time s) then
                (let new_total_time = double_of_int (total_time s + add_time) in
                 s\<lparr>avg_price :=
                      dadd (dmul (ddiv (avg_price s) new_total_time)
                                 (double_of_int (total_time s)))
                           (dmul (ddiv (last_price s) new_total_time)
                                 (double_of_int add_time)),
                   total_time := int_of_double new_total_time\<rparr>)
              else s\<lparr>avg_price := last_price s, total_time := add_time\<rparr>)
           in s1\<lparr>last_price := price, last_time := time\<rparr>))
     else s\<lparr>last_price := price, last_time := time\<rparr>)"

text \<open>A sequence of \<open>next_price\<close> calls on a fresh accumulator, first call first.\<close>

definition observe_all :: "(cint \<times> double) list \<Rightarrow> TWAP" where
  "observe_all obs = foldl (\<lambda>s (t, p). next_price t p s) TWAP_init obs"


section \<open>OrderBook: the live orders and their highest price\<close>

text \<open>
  Class \<open>OrderBook\<close> owns two \<open>std::map\<close>s.

  \<^item> \<open>order_price_map_\<close>, from order id to price, is only searched, extended and
    reduced by key: it is a partial function.
  \<^item> \<open>price_count_map_\<close>, from price to the number of orders at that price, is
    also read from its upper end (\<open>rbegin\<close>): it is the list of its entries in
    ascending key order, as an iteration of the \<open>std::map\<close> gives them.

  A price that is a key is a real number: a NaN has no place in the ordering of the
  keys, and the caller passes prices read from the input file.
\<close>

record OrderBook =
  order_price_map :: "cint \<rightharpoonup> real"
  price_count_map :: "(real \<times> cint) list"

text \<open>The constructor \<open>OrderBook::OrderBook()\<close>: two empty maps.\<close>

definition OrderBook_init :: OrderBook where
  "OrderBook_init = \<lparr>order_price_map = Map.empty, price_count_map = []\<rparr>"

text \<open>
  The operations of \<open>std::map\<close> on the list of entries.
  \<^item> \<open>find(k)\<close> is \<open>map_of m k\<close>: \<open>None\<close> stands for the iterator \<open>end()\<close>.
  \<^item> \<open>insert(pair(k, v))\<close> is \<open>map_insert\<close>: an existing key keeps its entry and the
    flag is \<open>False\<close>; a new key is put at its place in the order, with flag \<open>True\<close>.
  \<^item> writing through an iterator (\<open>it->second++\<close>) is \<open>AList.map_entry\<close>.
  \<^item> \<open>erase(it)\<close> is \<open>AList.delete\<close> of the iterator's key.
  \<^item> \<open>rbegin()->first\<close> is the key of the last entry.
\<close>

definition map_insert :: "'k::linorder \<Rightarrow> 'v \<Rightarrow> ('k \<times> 'v) list \<Rightarrow> ('k \<times> 'v) list \<times> bool" where
  "map_insert k v m =
    (case map_of m k of
       Some _ \<Rightarrow> (m, False)
     | None \<Rightarrow> (insort_key fst (k, v) m, True))"

text \<open>
  \<open>OrderBook::insert_order(order_id, price)\<close>. An order id that is already
  present returns at once.
\<close>

definition insert_order :: "cint \<Rightarrow> real \<Rightarrow> OrderBook \<Rightarrow> OrderBook" where
  "insert_order order_id price b =
    (case order_price_map b order_id of
       Some _ \<Rightarrow> b
     | None \<Rightarrow>
        (let (m, inserted) = map_insert price 1 (price_count_map b) in
         b\<lparr>order_price_map := (order_price_map b)(order_id \<mapsto> price),
           price_count_map :=
             (if \<not> inserted then AList.map_entry price (\<lambda>c. c + 1) m else m)\<rparr>))"

text \<open>
  \<open>OrderBook::erase_order(order_id)\<close>. An unknown order id returns at once.
  Otherwise the program looks the price up in \<open>price_count_map_\<close> and writes
  through the iterator without a test against \<open>end()\<close>: a missing price is a
  fault of the run, not a result.
\<close>

datatype fault = End_Iterator_Dereferenced

definition erase_order :: "cint \<Rightarrow> OrderBook \<Rightarrow> fault + OrderBook" where
  "erase_order order_id b =
    (case order_price_map b order_id of
       None \<Rightarrow> Inr b
     | Some price \<Rightarrow>
        (case map_of (price_count_map b) price of
           None \<Rightarrow> Inl End_Iterator_Dereferenced
         | Some c \<Rightarrow>
            (let m = AList.map_entry price (\<lambda>c. c - 1) (price_count_map b) in
             Inr (b\<lparr>order_price_map := (order_price_map b)(order_id := None),
                    price_count_map :=
                      (if sint (c - 1) \<le> 0 then AList.delete price m else m)\<rparr>))))"

text \<open>\<open>OrderBook::max_price()\<close>.\<close>

definition max_price :: "OrderBook \<Rightarrow> double" where
  "max_price b =
    (if price_count_map b = [] then NaN
     else Val (fst (last (price_count_map b))))"

text \<open>
  The events that \<open>main\<close> applies to the order book, and a sequence of them
  applied in order; a fault ends the run.
\<close>

datatype event = Insert cint real | Erase cint

fun apply_event :: "event \<Rightarrow> OrderBook \<Rightarrow> fault + OrderBook" where
  "apply_event (Insert order_id price) b = Inr (insert_order order_id price b)"
| "apply_event (Erase order_id) b = erase_order order_id b"

fun apply_events :: "event list \<Rightarrow> OrderBook \<Rightarrow> fault + OrderBook" where
  "apply_events [] b = Inr b"
| "apply_events (e # es) b =
    (case apply_event e b of
       Inl f \<Rightarrow> Inl f
     | Inr b' \<Rightarrow> apply_events es b')"

text \<open>
  The number of live orders stays below \<open>N\<close> after each event of a run (up to a
  fault, if there is one).
\<close>

fun live_orders_below :: "nat \<Rightarrow> event list \<Rightarrow> OrderBook \<Rightarrow> bool" where
  "live_orders_below N [] b = True"
| "live_orders_below N (e # es) b =
    (case apply_event e b of
       Inl _ \<Rightarrow> True
     | Inr b' \<Rightarrow> card (dom (order_price_map b')) < N \<and> live_orders_below N es b')"


section \<open>The properties that the specification names\<close>

text \<open>
  The invariant of the price set, in the specification's words: the counts add up
  to the number of live orders; the price of every live order is a key with a
  count of at least 1; every key is the price of a live order; no count is zero
  or negative.
\<close>

definition PriceSet_invariant :: "OrderBook \<Rightarrow> bool" where
  "PriceSet_invariant b \<longleftrightarrow>
     (\<Sum>(p, c) \<leftarrow> price_count_map b. sint c) = int (card (dom (order_price_map b)))
     \<and> (\<forall>p \<in> ran (order_price_map b).
           \<exists>c. map_of (price_count_map b) p = Some c \<and> 1 \<le> sint c)
     \<and> (\<forall>p \<in> fst ` set (price_count_map b). p \<in> ran (order_price_map b))
     \<and> (\<forall>c \<in> snd ` set (price_count_map b). 0 < sint c)"

text \<open>The invariant after a sequence of events on an empty order book.\<close>

definition invariant_after :: "event list \<Rightarrow> bool" where
  "invariant_after evs =
    (case apply_events evs OrderBook_init of
       Inl _ \<Rightarrow> False
     | Inr b \<Rightarrow> PriceSet_invariant b)"

text \<open>
  The entries of a \<open>std::map\<close> are in strictly ascending key order.
\<close>

definition ascending_keys :: "('k::linorder \<times> 'v) list \<Rightarrow> bool" where
  "ascending_keys m \<longleftrightarrow> sorted (map fst m) \<and> distinct (map fst m)"

text \<open>
  For the proofs: the live orders at a price, and the agreement of the two maps.
  Every key of \<open>price_count_map_\<close> has live orders and counts them, and a price
  without a key has none.
\<close>

definition orders_at :: "(cint \<rightharpoonup> real) \<Rightarrow> real \<Rightarrow> cint set" where
  "orders_at om p = {i. om i = Some p}"

definition counts_agree :: "(cint \<rightharpoonup> real) \<Rightarrow> (real \<times> cint) list \<Rightarrow> bool" where
  "counts_agree om m \<longleftrightarrow>
     ascending_keys m
     \<and> (\<forall>p. map_of m p = None \<longrightarrow> orders_at om p = {})
     \<and> (\<forall>p c. map_of m p = Some c \<longrightarrow>
            orders_at om p \<noteq> {} \<and> sint c = int (card (orders_at om p)))"

definition book_ok :: "OrderBook \<Rightarrow> bool" where
  "book_ok b \<longleftrightarrow> counts_agree (order_price_map b) (price_count_map b)"

text \<open>
  An input that fills one price: the inserts of the \<open>n\<close> orders with the ids
  \<open>0, \<dots>, n - 1\<close>, all at the price 10.
\<close>

definition same_price_inserts :: "nat \<Rightarrow> event list" where
  "same_price_inserts n = map (\<lambda>k. Insert (word_of_nat k) 10) [0..<n]"

text \<open>
  The reference time-weighted mean, in the specification's words and in exact
  arithmetic: over the completed intervals between consecutive observations whose
  starting price is defined, the sum of starting price times interval length, and
  the sum of the interval lengths. An infinite starting price has no product in
  the reals; the sum leaves it out.
\<close>

fun weighted_sum :: "(cint \<times> double) list \<Rightarrow> real" where
  "weighted_sum ((t1, p1) # (t2, p2) # obs) =
     (case p1 of
        Val v \<Rightarrow> v * real_of_int (sint t2 - sint t1)
      | _ \<Rightarrow> 0)
     + weighted_sum ((t2, p2) # obs)"
| "weighted_sum _ = 0"

fun weighted_time :: "(cint \<times> double) list \<Rightarrow> int" where
  "weighted_time ((t1, p1) # (t2, p2) # obs) =
     (case p1 of
        NaN \<Rightarrow> 0
      | _ \<Rightarrow> sint t2 - sint t1)
     + weighted_time ((t2, p2) # obs)"
| "weighted_time _ = 0"

definition reference_mean :: "(cint \<times> double) list \<Rightarrow> real" where
  "reference_mean obs = weighted_sum obs / real_of_int (weighted_time obs)"


text \<open>
  The sequences of observations the comparison is about: the times, read as signed
  numbers, do not decrease; and any two of them are less than \<open>2 ^ 31\<close> apart,
  so that every difference of two times is an \<open>int\<close>.
\<close>

definition non_decreasing :: "(cint \<times> double) list \<Rightarrow> bool" where
  "non_decreasing obs \<longleftrightarrow> sorted (map (\<lambda>x. sint (fst x)) obs)"

definition within_int_span :: "(cint \<times> double) list \<Rightarrow> bool" where
  "within_int_span obs \<longleftrightarrow>
     (\<forall>a \<in> set obs. \<forall>b \<in> set obs. sint (fst b) - sint (fst a) < 2 ^ 31)"


text \<open>
  For the comparison with the reference mean: the unit roundoff \<open>2 ^ (- 53)\<close>
  of a rounding to nearest, half the smallest positive double \<open>2 ^ (- 1075)\<close>
  (the largest error of a rounding in the subnormal range), and a slack that
  absorbs those absolute errors.
\<close>

definition unit_roundoff :: real where
  "unit_roundoff = 1 / 2 ^ 53"

definition half_min_double :: real where
  "half_min_double = 2 powr (- 1075)"

definition underflow_slack :: real where
  "underflow_slack = 2 powr (- 980)"

text \<open>
  Every price of the sequence is NaN or a real of magnitude at most \<open>P\<close>, and the
  distance from the reference mean that the roundings of \<open>n\<close> calls can add up
  to: each blend rounds five times, three of them in a row.
\<close>

fun price_within :: "real \<Rightarrow> double \<Rightarrow> bool" where
  "price_within P NaN = True"
| "price_within P (Val v) = (\<bar>v\<bar> \<le> P)"
| "price_within P _ = False"

definition prices_within :: "real \<Rightarrow> (cint \<times> double) list \<Rightarrow> bool" where
  "prices_within P obs \<longleftrightarrow> 0 \<le> P \<and> list_all (\<lambda>x. price_within P (snd x)) obs"

definition rounding_bound :: "nat \<Rightarrow> real \<Rightarrow> real" where
  "rounding_bound n P = ((1 + unit_roundoff) ^ (3 * n) - 1) * (P + underflow_slack)"


section \<open>Properties of TWAP\<close>

lemma int_of_double_of_int: "int_of_double (double_of_int i) = i"
proof -
  have "- (2 ^ 31) \<le> sint i" "sint i < 2 ^ 31"
    using sint_ge [of i] sint_lt [of i] by simp_all
  then have "int_of_double (double_of_int i) = word_of_int (sint i)"
    by (simp add: double_of_int_def del: of_int_sint)
  then show ?thesis by simp
qed

text \<open>
  C8. The first call on a fresh accumulator records the time and the price as the
  last observation, for every time and every price (NaN too); the average and the
  total time keep their initial values, and \<open>avg_price()\<close> is still NaN.
\<close>

theorem first_next_price_records_only:
  "next_price time price TWAP_init =
     \<lparr>last_price = price, last_time = time, avg_price = NaN, total_time = 0\<rparr>
   \<and> avg_price (next_price time price TWAP_init) = avg_price TWAP_init
   \<and> total_time (next_price time price TWAP_init) = total_time TWAP_init
   \<and> isnan (avg_price (next_price time price TWAP_init))"
  by (simp add: next_price_def TWAP_init_def)

text \<open>
  C9. When the recorded last price is NaN, a call with a time earlier than the
  recorded last time is not discarded: the time and the price become the last
  observation, and the average and the total time keep their values. The test for
  a time that goes backwards is inside the branch of a defined last price.
\<close>

theorem backwards_time_after_nan_is_recorded:
  "isnan (last_price s) \<Longrightarrow> sint time < sint (last_time s) \<Longrightarrow>
   next_price time price s = s\<lparr>last_price := price, last_time := time\<rparr>
   \<and> last_price (next_price time price s) = price
   \<and> last_time (next_price time price s) = time
   \<and> avg_price (next_price time price s) = avg_price s
   \<and> total_time (next_price time price s) = total_time s"
  by (simp add: next_price_def)

theorem backwards_time_after_nan_is_recorded_witness:
  "isnan (last_price (observe_all [(0, Val 10), (10, NaN)]))
   \<and> sint (4 :: cint) < sint (last_time (observe_all [(0, Val 10), (10, NaN)]))
   \<and> last_price (next_price 4 (Val 30) (observe_all [(0, Val 10), (10, NaN)])) = Val 30
   \<and> last_time (next_price 4 (Val 30) (observe_all [(0, Val 10), (10, NaN)])) = 4
   \<and> avg_price (next_price 4 (Val 30) (observe_all [(0, Val 10), (10, NaN)])) = Val 10
   \<and> total_time (next_price 4 (Val 30) (observe_all [(0, Val 10), (10, NaN)])) = 10"
proof -
  let ?s = "observe_all [(0, Val 10), (10, NaN)]"
  have s: "?s = \<lparr>last_price = NaN, last_time = 10, avg_price = Val 10, total_time = 10\<rparr>"
    by (simp add: observe_all_def next_price_def TWAP_init_def)
  have h1: "isnan (last_price ?s)" by (simp add: s)
  have h2: "sint (4 :: cint) < sint (last_time ?s)" by (simp add: s)
  from backwards_time_after_nan_is_recorded [OF h1 h2, of "Val 30"] h1 h2
  show ?thesis by (simp add: s)
qed

text \<open>
  C10. With a defined last price and a total time of 0, a call at the recorded
  last time itself (an elapsed time of 0) sets the average to that last price and
  leaves the total time at 0: \<open>avg_price()\<close> is defined although no time has been
  accumulated.
\<close>

theorem zero_elapsed_sets_average:
  "\<not> isnan (last_price s) \<Longrightarrow> total_time s = 0 \<Longrightarrow> time = last_time s \<Longrightarrow>
   avg_price (next_price time price s) = last_price s
   \<and> total_time (next_price time price s) = 0
   \<and> \<not> isnan (avg_price (next_price time price s))"
  by (simp add: next_price_def)

theorem zero_elapsed_sets_average_witness:
  "\<not> isnan (last_price (next_price 7 (Val 10) TWAP_init))
   \<and> total_time (next_price 7 (Val 10) TWAP_init) = 0
   \<and> (7 :: cint) = last_time (next_price 7 (Val 10) TWAP_init)
   \<and> avg_price (next_price 7 (Val 20) (next_price 7 (Val 10) TWAP_init)) = Val 10
   \<and> total_time (next_price 7 (Val 20) (next_price 7 (Val 10) TWAP_init)) = 0"
proof -
  let ?s = "next_price 7 (Val 10) TWAP_init"
  have s: "?s = \<lparr>last_price = Val 10, last_time = 7, avg_price = NaN, total_time = 0\<rparr>"
    by (simp add: next_price_def TWAP_init_def)
  have h1: "\<not> isnan (last_price ?s)" by (simp add: s)
  have h2: "total_time ?s = 0" by (simp add: s)
  have h3: "(7 :: cint) = last_time ?s" by (simp add: s)
  from zero_elapsed_sets_average [OF h1 h2 h3, of "Val 20"] h1 h2 h3
  show ?thesis by (simp add: s)
qed

text \<open>
  C5. When the recorded last price is NaN, a call with a time not before the
  recorded last time leaves the average and the total time as they are (the
  interval without a price has no weight) and records the time and the price as the
  last observation. In particular the calls (0, 10), (10, NaN), (20, 20) give the
  average 10 and the total time 10 after the second and after the third call.
\<close>

theorem nan_interval_has_no_weight:
  "(isnan (last_price s) \<longrightarrow> sint (last_time s) \<le> sint time \<longrightarrow>
      avg_price (next_price time price s) = avg_price s
      \<and> total_time (next_price time price s) = total_time s
      \<and> last_price (next_price time price s) = price
      \<and> last_time (next_price time price s) = time)
   \<and> avg_price (observe_all [(0, Val 10), (10, NaN)]) = Val 10
   \<and> total_time (observe_all [(0, Val 10), (10, NaN)]) = 10
   \<and> avg_price (observe_all [(0, Val 10), (10, NaN), (20, Val 20)]) = Val 10
   \<and> total_time (observe_all [(0, Val 10), (10, NaN), (20, Val 20)]) = 10"
  by (simp add: observe_all_def next_price_def TWAP_init_def)

theorem nan_interval_has_no_weight_witness:
  "isnan (last_price (observe_all [(0, Val 10), (10, NaN)]))
   \<and> sint (last_time (observe_all [(0, Val 10), (10, NaN)])) \<le> sint (20 :: cint)
   \<and> avg_price (next_price 20 (Val 20) (observe_all [(0, Val 10), (10, NaN)])) = Val 10
   \<and> total_time (next_price 20 (Val 20) (observe_all [(0, Val 10), (10, NaN)])) = 10
   \<and> last_price (next_price 20 (Val 20) (observe_all [(0, Val 10), (10, NaN)])) = Val 20
   \<and> last_time (next_price 20 (Val 20) (observe_all [(0, Val 10), (10, NaN)])) = 20"
proof -
  let ?s = "observe_all [(0, Val 10), (10, NaN)]"
  have s: "?s = \<lparr>last_price = NaN, last_time = 10, avg_price = Val 10, total_time = 10\<rparr>"
    by (simp add: observe_all_def next_price_def TWAP_init_def)
  have h1: "isnan (last_price ?s)" by (simp add: s)
  have h2: "sint (last_time ?s) \<le> sint (20 :: cint)" by (simp add: s)
  from nan_interval_has_no_weight [where s = "?s" and time = 20 and price = "Val 20"] h1 h2
  show ?thesis by (simp add: s)
qed

text \<open>
  C1, as the program has it. When the recorded last price is defined and the
  program's difference \<open>time - last_time_\<close> (a 32-bit \<open>int\<close> subtraction) is
  negative, the call returns at once: the average, the total time, the last price
  and the last time all keep their values. The claim also promises this when the
  last price is NaN; there the call is recorded instead, as the theorem after the
  witness shows on the calls (0, 10), (10, NaN), (4, 30).
\<close>

theorem backwards_time_is_discarded:
  "\<not> isnan (last_price s) \<Longrightarrow> sint (time - last_time s) < 0 \<Longrightarrow>
   next_price time price s = s"
  by (simp add: next_price_def)

theorem backwards_time_is_discarded_witness:
  "\<not> isnan (last_price (observe_all [(0, Val 10), (5, Val 20)]))
   \<and> sint (3 - last_time (observe_all [(0, Val 10), (5, Val 20)])) < 0
   \<and> next_price 3 (Val 30) (observe_all [(0, Val 10), (5, Val 20)])
       = observe_all [(0, Val 10), (5, Val 20)]
   \<and> observe_all [(0, Val 10), (5, Val 20)]
       = \<lparr>last_price = Val 20, last_time = 5, avg_price = Val 10, total_time = 5\<rparr>"
proof -
  let ?s = "observe_all [(0, Val 10), (5, Val 20)]"
  have s: "?s = \<lparr>last_price = Val 20, last_time = 5, avg_price = Val 10, total_time = 5\<rparr>"
    by (simp add: observe_all_def next_price_def TWAP_init_def)
  have h1: "\<not> isnan (last_price ?s)" by (simp add: s)
  have h2: "sint (3 - last_time ?s) < 0" by (simp add: s)
  from backwards_time_is_discarded [OF h1 h2, of "Val 30"] h1 h2 s
  show ?thesis by simp
qed

theorem backwards_time_after_nan_changes_state:
  "sint (4 - last_time (observe_all [(0, Val 10), (10, NaN)])) < 0
   \<and> observe_all [(0, Val 10), (10, NaN)]
       = \<lparr>last_price = NaN, last_time = 10, avg_price = Val 10, total_time = 10\<rparr>
   \<and> next_price 4 (Val 30) (observe_all [(0, Val 10), (10, NaN)])
       = \<lparr>last_price = Val 30, last_time = 4, avg_price = Val 10, total_time = 10\<rparr>
   \<and> next_price 4 (Val 30) (observe_all [(0, Val 10), (10, NaN)])
       \<noteq> observe_all [(0, Val 10), (10, NaN)]"
  by (simp add: observe_all_def next_price_def TWAP_init_def)


section \<open>Properties of OrderBook\<close>

text \<open>
  C6. Inserting an order id that is already among the live orders leaves both
  maps as they are, whatever the price, and is not a fault.
\<close>

theorem duplicate_insert_is_noop:
  "order_price_map b order_id \<noteq> None \<Longrightarrow>
   insert_order order_id price b = b
   \<and> apply_event (Insert order_id price) b = Inr b"
  by (auto simp add: insert_order_def)

theorem duplicate_insert_is_noop_witness:
  "order_price_map (insert_order 1 10 OrderBook_init) 1 \<noteq> None
   \<and> insert_order 1 33 (insert_order 1 10 OrderBook_init) = insert_order 1 10 OrderBook_init
   \<and> insert_order 1 10 OrderBook_init
       = \<lparr>order_price_map = [1 \<mapsto> 10], price_count_map = [(10, 1)]\<rparr>"
proof -
  let ?b = "insert_order 1 10 OrderBook_init"
  have b: "?b = \<lparr>order_price_map = [1 \<mapsto> 10], price_count_map = [(10, 1)]\<rparr>"
    by (simp add: insert_order_def OrderBook_init_def map_insert_def)
  have h: "order_price_map ?b 1 \<noteq> None" by (simp add: b)
  from duplicate_insert_is_noop [OF h, of 33] h b show ?thesis by simp
qed

text \<open>
  C7. Erasing an order id that is not among the live orders leaves both maps as
  they are and is not a fault.
\<close>

theorem unknown_erase_is_noop:
  "order_price_map b order_id = None \<Longrightarrow>
   erase_order order_id b = Inr b
   \<and> apply_event (Erase order_id) b = Inr b"
  by (simp add: erase_order_def)

theorem unknown_erase_is_noop_witness:
  "order_price_map (insert_order 1 10 OrderBook_init) 7 = None
   \<and> erase_order 7 (insert_order 1 10 OrderBook_init) = Inr (insert_order 1 10 OrderBook_init)
   \<and> insert_order 1 10 OrderBook_init
       = \<lparr>order_price_map = [1 \<mapsto> 10], price_count_map = [(10, 1)]\<rparr>"
proof -
  let ?b = "insert_order 1 10 OrderBook_init"
  have b: "?b = \<lparr>order_price_map = [1 \<mapsto> 10], price_count_map = [(10, 1)]\<rparr>"
    by (simp add: insert_order_def OrderBook_init_def map_insert_def)
  have h: "order_price_map ?b 7 = None" by (simp add: b)
  from unknown_erase_is_noop [OF h] h b show ?thesis by simp
qed

subsection \<open>The highest price\<close>

lemma sorted_le_last: "sorted xs \<Longrightarrow> x \<in> set xs \<Longrightarrow> x \<le> last xs"
  by (induction xs) auto

lemma Max_sorted_last:
  fixes xs :: "'a :: linorder list"
  shows "sorted xs \<Longrightarrow> xs \<noteq> [] \<Longrightarrow> Max (set xs) = last xs"
  by (intro Max_eqI) (auto simp: sorted_le_last)

lemma max_price_greatest_key:
  "ascending_keys (price_count_map b) \<Longrightarrow> price_count_map b \<noteq> [] \<Longrightarrow>
   max_price b = Val (Max (fst ` set (price_count_map b)))"
  using Max_sorted_last [of "map fst (price_count_map b)"]
  by (simp add: max_price_def ascending_keys_def last_map)

lemma keys_are_live_prices:
  "PriceSet_invariant b \<Longrightarrow> fst ` set (price_count_map b) = ran (order_price_map b)"
  by (auto simp: PriceSet_invariant_def) (metis domI dom_map_of_conv_image_fst)

lemma ran_empty_iff: "ran m = {} \<longleftrightarrow> dom m = {}"
proof
  assume "ran m = {}"
  then have "m a = None" for a
    by (cases "m a") (auto simp: ran_def)
  then show "dom m = {}" by (simp add: dom_def)
next
  assume "dom m = {}"
  then show "ran m = {}" by simp
qed

lemma no_orders_no_keys:
  assumes "PriceSet_invariant b"
  shows "price_count_map b = [] \<longleftrightarrow> dom (order_price_map b) = {}"
proof -
  have "price_count_map b = [] \<longleftrightarrow> fst ` set (price_count_map b) = {}"
    by simp
  also have "\<dots> \<longleftrightarrow> ran (order_price_map b) = {}"
    by (simp only: keys_are_live_prices [OF assms])
  also have "\<dots> \<longleftrightarrow> dom (order_price_map b) = {}"
    by (rule ran_empty_iff)
  finally show ?thesis .
qed

text \<open>
  C4. In every state of the price set (the keys of \<open>price_count_map_\<close> ascending,
  as a \<open>std::map\<close> holds them, and the invariant of the price set), \<open>max_price()\<close>
  is NaN when there is no live order, and otherwise the greatest key of
  \<open>price_count_map_\<close>, which is the highest price of a live order. An empty order
  book gives NaN; after the inserts at 10, 12 and 11 the result is 12, and after
  erasing the order at 12 it is 11.
\<close>

theorem max_price_is_highest_live_price:
  "(ascending_keys (price_count_map b) \<longrightarrow> PriceSet_invariant b \<longrightarrow>
     (dom (order_price_map b) = {} \<longrightarrow> max_price b = NaN)
     \<and> (dom (order_price_map b) \<noteq> {} \<longrightarrow>
          max_price b = Val (Max (fst ` set (price_count_map b)))
          \<and> max_price b = Val (Max (ran (order_price_map b)))))
   \<and> max_price OrderBook_init = NaN
   \<and> map_sum id max_price
        (apply_events [Insert 1 10, Insert 2 12, Insert 3 11] OrderBook_init)
       = Inr (Val 12)
   \<and> map_sum id max_price
        (apply_events [Insert 1 10, Insert 2 12, Insert 3 11, Erase 2] OrderBook_init)
       = Inr (Val 11)"
proof -
  have general: "(dom (order_price_map b) = {} \<longrightarrow> max_price b = NaN)
     \<and> (dom (order_price_map b) \<noteq> {} \<longrightarrow>
          max_price b = Val (Max (fst ` set (price_count_map b)))
          \<and> max_price b = Val (Max (ran (order_price_map b))))"
    if asc: "ascending_keys (price_count_map b)" and inv: "PriceSet_invariant b"
  proof (cases "dom (order_price_map b) = {}")
    case True
    with no_orders_no_keys [OF inv] show ?thesis
      by (simp add: max_price_def)
  next
    case False
    with no_orders_no_keys [OF inv] have "price_count_map b \<noteq> []"
      by simp
    from max_price_greatest_key [OF asc this] False keys_are_live_prices [OF inv]
    show ?thesis by simp
  qed
  have empty: "max_price OrderBook_init = NaN"
    by (simp add: max_price_def OrderBook_init_def)
  have ex1: "map_sum id max_price
      (apply_events [Insert 1 10, Insert 2 12, Insert 3 11] OrderBook_init) = Inr (Val 12)"
    by (simp add: insert_order_def OrderBook_init_def map_insert_def max_price_def)
  have ex2: "map_sum id max_price
      (apply_events [Insert 1 10, Insert 2 12, Insert 3 11, Erase 2] OrderBook_init)
      = Inr (Val 11)"
    by (simp add: insert_order_def erase_order_def OrderBook_init_def map_insert_def
        max_price_def)
  from general empty ex1 ex2 show ?thesis by blast
qed

theorem max_price_is_highest_live_price_witness:
  "ascending_keys (price_count_map
      (insert_order 3 11 (insert_order 2 12 (insert_order 1 10 OrderBook_init))))
   \<and> PriceSet_invariant
      (insert_order 3 11 (insert_order 2 12 (insert_order 1 10 OrderBook_init)))
   \<and> dom (order_price_map
      (insert_order 3 11 (insert_order 2 12 (insert_order 1 10 OrderBook_init)))) \<noteq> {}
   \<and> max_price (insert_order 3 11 (insert_order 2 12 (insert_order 1 10 OrderBook_init)))
       = Val 12
   \<and> Max (ran (order_price_map
      (insert_order 3 11 (insert_order 2 12 (insert_order 1 10 OrderBook_init))))) = 12"
proof -
  let ?b = "insert_order 3 11 (insert_order 2 12 (insert_order 1 10 OrderBook_init))"
  have b: "?b = \<lparr>order_price_map = [1 \<mapsto> 10, 2 \<mapsto> 12, 3 \<mapsto> 11],
                 price_count_map = [(10, 1), (11, 1), (12, 1)]\<rparr>"
    by (simp add: insert_order_def OrderBook_init_def map_insert_def)
  have h1: "ascending_keys (price_count_map ?b)"
    by (simp add: b ascending_keys_def)
  have h2: "PriceSet_invariant ?b"
    by (simp add: b PriceSet_invariant_def)
  have h3: "dom (order_price_map ?b) \<noteq> {}"
    by (simp add: b)
  have m: "max_price ?b = Val 12"
    by (simp add: b max_price_def)
  from max_price_is_highest_live_price [where b = "?b"] h1 h2 h3 m
  show ?thesis by simp
qed


subsection \<open>The invariant of the price set\<close>

lemma sint_succ: "sint c < 2 ^ 31 - 1 \<Longrightarrow> sint (c + 1 :: cint) = sint c + 1"
  using sint_ge [of c]
  by (simp add: sint_word_ariths signed_take_bit_int_eq_self)

lemma sint_pred: "- (2 ^ 31) < sint c \<Longrightarrow> sint (c - 1 :: cint) = sint c - 1"
  using sint_lt [of c]
  by (simp add: sint_word_ariths signed_take_bit_int_eq_self)

lemma map_of_insort_key: "map_of (insort_key fst (k, v) m) = (map_of m)(k \<mapsto> v)"
  by (induction m) (auto simp: fun_eq_iff)

lemma keys_insort_key: "map fst (insort_key fst (k, v) m) = insort k (map fst m)"
  by (induction m) auto

lemma keys_map_entry: "map fst (AList.map_entry k f m) = map fst m"
  by (induction m) auto

lemma ascending_keys_insort:
  "ascending_keys m \<Longrightarrow> map_of m k = None \<Longrightarrow> ascending_keys (insort_key fst (k, v) m)"
  by (simp add: ascending_keys_def keys_insort_key sorted_insort distinct_insort map_of_eq_None_iff)

lemma ascending_keys_map_entry:
  "ascending_keys m \<Longrightarrow> ascending_keys (AList.map_entry k f m)"
  by (simp add: ascending_keys_def keys_map_entry)

lemma ascending_keys_delete:
  "ascending_keys m \<Longrightarrow> ascending_keys (AList.delete k m)"
  by (simp add: ascending_keys_def AList.distinct_delete) (simp add: AList.delete_eq sorted_filter)

lemma card_orders_at_le: "card (orders_at om p) \<le> card (dom om)"
  by (rule card_mono) (auto simp: orders_at_def)

lemma orders_at_insert:
  "om i = None \<Longrightarrow>
   orders_at (om(i \<mapsto> p)) q = (if q = p then insert i (orders_at om q) else orders_at om q)"
  by (auto simp: orders_at_def)

lemma orders_at_erase:
  "om i = Some p \<Longrightarrow>
   orders_at (om(i := None)) q = (if q = p then orders_at om q - {i} else orders_at om q)"
  by (auto simp: orders_at_def)

lemma not_in_orders_at: "om i = None \<Longrightarrow> i \<notin> orders_at om q"
  by (simp add: orders_at_def)

lemma in_orders_at: "om i = Some p \<Longrightarrow> i \<in> orders_at om p"
  by (simp add: orders_at_def)

lemma counts_agreeI:
  assumes "ascending_keys m"
    and "\<And>p. map_of m p = None \<Longrightarrow> orders_at om p = {}"
    and "\<And>p c. map_of m p = Some c \<Longrightarrow> orders_at om p \<noteq> {}"
    and "\<And>p c. map_of m p = Some c \<Longrightarrow> sint c = int (card (orders_at om p))"
  shows "counts_agree om m"
  using assms by (simp add: counts_agree_def)

lemma agree_ascending: "counts_agree om m \<Longrightarrow> ascending_keys m"
  by (simp add: counts_agree_def)

lemma agree_None: "counts_agree om m \<Longrightarrow> map_of m p = None \<Longrightarrow> orders_at om p = {}"
  by (simp add: counts_agree_def)

lemma agree_Some_nonempty:
  "counts_agree om m \<Longrightarrow> map_of m p = Some c \<Longrightarrow> orders_at om p \<noteq> {}"
  by (simp add: counts_agree_def)

lemma agree_Some_card:
  "counts_agree om m \<Longrightarrow> map_of m p = Some c \<Longrightarrow> sint c = int (card (orders_at om p))"
  by (simp add: counts_agree_def)

lemma agree_new_price:
  assumes ok: "counts_agree om m" and new: "om i = None" and p: "map_of m p = None"
  shows "counts_agree (om(i \<mapsto> p)) (insort_key fst (p, 1) m)"
proof (rule counts_agreeI)
  show "ascending_keys (insort_key fst (p, 1) m)"
    using agree_ascending [OF ok] p by (rule ascending_keys_insort)
next
  fix q assume "map_of (insort_key fst (p, 1) m) q = None"
  then have "q \<noteq> p" and "map_of m q = None"
    by (auto simp: map_of_insort_key split: if_splits)
  with agree_None [OF ok] show "orders_at (om(i \<mapsto> p)) q = {}"
    by (simp add: orders_at_insert [of om i, OF new])
next
  fix q c assume "map_of (insort_key fst (p, 1) m) q = Some c"
  then show "orders_at (om(i \<mapsto> p)) q \<noteq> {}"
    using agree_Some_nonempty [OF ok, of q c]
    by (auto simp: map_of_insort_key orders_at_insert [of om i, OF new] split: if_splits)
next
  fix q c assume q: "map_of (insort_key fst (p, 1) m) q = Some c"
  show "sint c = int (card (orders_at (om(i \<mapsto> p)) q))"
  proof (cases "q = p")
    case True
    with q have "c = 1" by (simp add: map_of_insort_key)
    with True agree_None [OF ok p] show ?thesis
      by (simp add: orders_at_insert [of om i, OF new])
  next
    case False
    with q have "map_of m q = Some c" by (simp add: map_of_insort_key)
    from agree_Some_card [OF ok this] False show ?thesis
      by (simp add: orders_at_insert [of om i, OF new])
  qed
qed

lemma agree_known_price:
  assumes ok: "counts_agree om m" and new: "om i = None" and c: "map_of m p = Some c"
    and bound: "card (dom om) < 2 ^ 31 - 1"
  shows "counts_agree (om(i \<mapsto> p)) (AList.map_entry p (\<lambda>c. c + 1) m)"
proof (rule counts_agreeI)
  show "ascending_keys (AList.map_entry p (\<lambda>c. c + 1) m)"
    using agree_ascending [OF ok] by (rule ascending_keys_map_entry)
next
  fix q assume "map_of (AList.map_entry p (\<lambda>c. c + 1) m) q = None"
  with c have "q \<noteq> p" and "map_of m q = None"
    by (auto simp: AList.map_of_map_entry split: if_splits)
  with agree_None [OF ok] show "orders_at (om(i \<mapsto> p)) q = {}"
    by (simp add: orders_at_insert [of om i, OF new])
next
  fix q d assume "map_of (AList.map_entry p (\<lambda>c. c + 1) m) q = Some d"
  then show "orders_at (om(i \<mapsto> p)) q \<noteq> {}"
    using agree_Some_nonempty [OF ok, of q d]
    by (auto simp: AList.map_of_map_entry orders_at_insert [of om i, OF new] split: if_splits)
next
  fix q d assume q: "map_of (AList.map_entry p (\<lambda>c. c + 1) m) q = Some d"
  show "sint d = int (card (orders_at (om(i \<mapsto> p)) q))"
  proof (cases "q = p")
    case True
    with q c have d: "d = c + 1" by (simp add: AList.map_of_map_entry)
    have cc: "sint c = int (card (orders_at om p))"
      by (rule agree_Some_card [OF ok c])
    have "card (orders_at om p) < 2 ^ 31 - 1"
      using card_orders_at_le [of om p] bound by simp
    with cc have "sint c < 2 ^ 31 - 1" by simp
    then have c1: "sint (c + 1) = sint c + 1" by (rule sint_succ)
    have "i \<notin> orders_at om p" using not_in_orders_at [of om i, OF new] .
    then have "card (insert i (orders_at om p)) = Suc (card (orders_at om p))"
      by simp
    with cc c1 d True show ?thesis
      by (simp add: orders_at_insert [of om i, OF new])
  next
    case False
    with q have "map_of m q = Some d" by (simp add: AList.map_of_map_entry)
    from agree_Some_card [OF ok this] False show ?thesis
      by (simp add: orders_at_insert [of om i, OF new])
  qed
qed

lemma insert_order_ok:
  assumes ok: "book_ok b" and bound: "card (dom (order_price_map b)) < 2 ^ 31 - 1"
  shows "book_ok (insert_order i p b)"
proof (cases "order_price_map b i")
  case (Some a)
  with ok show ?thesis by (simp add: insert_order_def)
next
  case None
  show ?thesis
  proof (cases "map_of (price_count_map b) p")
    case no_price: None
    from agree_new_price [OF ok [unfolded book_ok_def] None no_price] None no_price
    show ?thesis by (simp add: book_ok_def insert_order_def map_insert_def)
  next
    case (Some c)
    from agree_known_price [OF ok [unfolded book_ok_def] None Some bound] None Some
    show ?thesis by (simp add: book_ok_def insert_order_def map_insert_def)
  qed
qed


lemma agree_erase:
  assumes ok: "counts_agree om m" and old: "om i = Some p" and c: "map_of m p = Some c"
  shows "counts_agree (om(i := None))
           (if sint (c - 1) \<le> 0
            then AList.delete p (AList.map_entry p (\<lambda>c. c - 1) m)
            else AList.map_entry p (\<lambda>c. c - 1) m)"
proof -
  let ?m1 = "AList.map_entry p (\<lambda>c. c - 1) m"
  note ers = orders_at_erase [of om i, OF old]
  have i_in: "i \<in> orders_at om p" using in_orders_at [of om i, OF old] .
  have cc: "sint c = int (card (orders_at om p))"
    by (rule agree_Some_card [OF ok c])
  have "0 < card (orders_at om p)" using i_in by (auto simp: card_gt_0_iff)
  with cc have pos: "0 < sint c" by simp
  with sint_pred [of c] have c1: "sint (c - 1) = sint c - 1" by simp
  have card': "int (card (orders_at om p - {i})) = sint (c - 1)"
    using i_in cc c1 pos by (simp add: card_Diff_singleton)
  have m1: "map_of ?m1 q = (if q = p then Some (c - 1) else map_of m q)" for q
    using c by (simp add: AList.map_of_map_entry)
  show ?thesis
  proof (cases "sint (c - 1) \<le> 0")
    case True
    with card' have "card (orders_at om p - {i}) = 0" by linarith
    then have gone: "orders_at om p - {i} = {}"
      using card_eq_0_iff [of "orders_at om p - {i}"] by simp
    have m2: "map_of (AList.delete p ?m1) q = (if q = p then None else map_of m q)" for q
      by (simp add: AList.delete_conv' m1)
    have "counts_agree (om(i := None)) (AList.delete p ?m1)"
    proof (rule counts_agreeI)
      show "ascending_keys (AList.delete p ?m1)"
        using agree_ascending [OF ok]
        by (intro ascending_keys_delete ascending_keys_map_entry)
    next
      fix q assume "map_of (AList.delete p ?m1) q = None"
      with agree_None [OF ok, of q] gone show "orders_at (om(i := None)) q = {}"
        by (auto simp: m2 ers split: if_splits)
    next
      fix q d assume "map_of (AList.delete p ?m1) q = Some d"
      with agree_Some_nonempty [OF ok, of q d] show "orders_at (om(i := None)) q \<noteq> {}"
        by (auto simp: m2 ers split: if_splits)
    next
      fix q d assume "map_of (AList.delete p ?m1) q = Some d"
      with agree_Some_card [OF ok, of q d]
      show "sint d = int (card (orders_at (om(i := None)) q))"
        by (auto simp: m2 ers split: if_splits)
    qed
    with True show ?thesis by simp
  next
    case False
    with card' have "card (orders_at om p - {i}) \<noteq> 0" by linarith
    then have left: "orders_at om p - {i} \<noteq> {}"
      using card_eq_0_iff [of "orders_at om p - {i}"] by simp
    have "counts_agree (om(i := None)) ?m1"
    proof (rule counts_agreeI)
      show "ascending_keys ?m1"
        using agree_ascending [OF ok] by (rule ascending_keys_map_entry)
    next
      fix q assume "map_of ?m1 q = None"
      with agree_None [OF ok, of q] show "orders_at (om(i := None)) q = {}"
        by (auto simp: m1 ers split: if_splits)
    next
      fix q d assume "map_of ?m1 q = Some d"
      with agree_Some_nonempty [OF ok, of q d] left
      show "orders_at (om(i := None)) q \<noteq> {}"
        by (auto simp: m1 ers split: if_splits)
    next
      fix q d assume "map_of ?m1 q = Some d"
      with agree_Some_card [OF ok, of q d] card'
      show "sint d = int (card (orders_at (om(i := None)) q))"
        by (auto simp: m1 ers split: if_splits)
    qed
    with False show ?thesis by simp
  qed
qed

lemma erase_order_ok:
  assumes ok: "book_ok b"
  shows "\<exists>b'. erase_order i b = Inr b' \<and> book_ok b'
           \<and> card (dom (order_price_map b')) \<le> card (dom (order_price_map b))"
proof (cases "order_price_map b i")
  case None
  with ok show ?thesis by (simp add: erase_order_def)
next
  case (Some p)
  from in_orders_at [of "order_price_map b" i, OF Some]
  have "orders_at (order_price_map b) p \<noteq> {}" by auto
  with agree_None [OF ok [unfolded book_ok_def], of p]
  obtain c where c: "map_of (price_count_map b) p = Some c" by (cases "map_of (price_count_map b) p") auto
  have "card (dom (order_price_map b) - {i}) \<le> card (dom (order_price_map b))"
    by (rule card_mono) auto
  with agree_erase [OF ok [unfolded book_ok_def] Some c] Some c
  show ?thesis
    by (simp add: erase_order_def book_ok_def Let_def)
qed

lemma insert_order_ok_after:
  assumes ok: "book_ok b"
    and bound: "card (dom (order_price_map (insert_order i p b))) < 2 ^ 31"
  shows "book_ok (insert_order i p b)"
proof (cases "order_price_map b i")
  case (Some a)
  with ok show ?thesis by (simp add: insert_order_def)
next
  case None
  then have "i \<notin> dom (order_price_map b)" by auto
  then have "card (dom (order_price_map (insert_order i p b)))
      = Suc (card (dom (order_price_map b)))"
    using None by (simp add: insert_order_def map_insert_def split: option.splits)
  with bound have "card (dom (order_price_map b)) < 2 ^ 31 - 1" by simp
  with ok show ?thesis by (rule insert_order_ok)
qed

lemma apply_events_ok:
  "book_ok b \<Longrightarrow> live_orders_below (2 ^ 31) evs b \<Longrightarrow>
   \<exists>b'. apply_events evs b = Inr b' \<and> book_ok b'"
proof (induction evs arbitrary: b)
  case Nil
  then show ?case by simp
next
  case (Cons e evs)
  show ?case
  proof (cases e)
    case (Insert i p)
    let ?b = "insert_order i p b"
    from Cons.prems(2) Insert
    have bound: "card (dom (order_price_map ?b)) < 2 ^ 31"
      and rest: "live_orders_below (2 ^ 31) evs ?b"
      by simp_all
    from Cons.prems(1) bound have "book_ok ?b" by (rule insert_order_ok_after)
    from Cons.IH [OF this rest] Insert show ?thesis by simp
  next
    case (Erase i)
    from erase_order_ok [OF Cons.prems(1), of i]
    obtain b1 where b1: "erase_order i b = Inr b1" "book_ok b1"
      by blast
    from Cons.prems(2) Erase b1(1) have "live_orders_below (2 ^ 31) evs b1"
      by simp
    from Cons.IH [OF b1(2) this] Erase b1(1) show ?thesis by simp
  qed
qed

lemma book_ok_init: "book_ok OrderBook_init"
  by (simp add: book_ok_def counts_agree_def OrderBook_init_def ascending_keys_def orders_at_def)


lemma counts_sum:
  assumes ok: "counts_agree om m"
  shows "(\<Sum>(p, c) \<leftarrow> m. sint c) = int (card (dom om))"
proof -
  from agree_ascending [OF ok] have dist: "distinct (map fst m)"
    by (simp add: ascending_keys_def)
  have eq: "(case x of (p, c) \<Rightarrow> sint c) = int (card (orders_at om (fst x)))"
    if "x \<in> set m" for x
  proof -
    from that have "map_of m (fst x) = Some (snd x)" using dist by simp
    from agree_Some_card [OF ok this] show ?thesis
      by (simp add: case_prod_unfold)
  qed
  have "(\<Sum>(p, c) \<leftarrow> m. sint c) = (\<Sum>x \<leftarrow> m. int (card (orders_at om (fst x))))"
    by (rule arg_cong [where f = sum_list]) (rule map_cong [OF refl eq])
  also have "\<dots> = (\<Sum>p \<leftarrow> map fst m. int (card (orders_at om p)))"
    by (simp add: comp_def)
  also have "\<dots> = (\<Sum>p \<in> set (map fst m). int (card (orders_at om p)))"
    using dist by (rule sum_list_distinct_conv_sum_set)
  also have "\<dots> = int (\<Sum>p \<in> set (map fst m). card (orders_at om p))"
    by simp
  also have "(\<Sum>p \<in> set (map fst m). card (orders_at om p))
      = card (\<Union>p \<in> set (map fst m). orders_at om p)"
    by (rule card_UN_disjoint [symmetric]) (auto simp: orders_at_def)
  also have "(\<Union>p \<in> set (map fst m). orders_at om p) = dom om"
  proof (intro set_eqI iffI)
    fix i assume "i \<in> (\<Union>p \<in> set (map fst m). orders_at om p)"
    then show "i \<in> dom om" by (auto simp: orders_at_def)
  next
    fix i assume "i \<in> dom om"
    then obtain p where p: "om i = Some p" by auto
    then have "orders_at om p \<noteq> {}" by (auto simp: orders_at_def)
    with agree_None [OF ok, of p] have "map_of m p \<noteq> None" by auto
    then have "p \<in> set (map fst m)" by (simp add: map_of_eq_None_iff)
    with p show "i \<in> (\<Union>p \<in> set (map fst m). orders_at om p)"
      by (auto simp: orders_at_def)
  qed
  finally show ?thesis .
qed

lemma book_ok_invariant:
  assumes ok: "book_ok b"
  shows "PriceSet_invariant b"
proof -
  let ?om = "order_price_map b" and ?m = "price_count_map b"
  from ok have agree: "counts_agree ?om ?m" by (simp add: book_ok_def)
  from agree_ascending [OF agree] have dist: "distinct (map fst ?m)"
    by (simp add: ascending_keys_def)
  have pos: "0 < sint c" if "map_of ?m p = Some c" for p c
  proof -
    from agree_Some_nonempty [OF agree that] have "0 < card (orders_at ?om p)"
      by (simp add: card_gt_0_iff)
    with agree_Some_card [OF agree that] show ?thesis by simp
  qed
  have 1: "(\<Sum>(p, c) \<leftarrow> ?m. sint c) = int (card (dom ?om))"
    using agree by (rule counts_sum)
  have 2: "\<forall>p \<in> ran ?om. \<exists>c. map_of ?m p = Some c \<and> 1 \<le> sint c"
  proof
    fix p assume "p \<in> ran ?om"
    then have "orders_at ?om p \<noteq> {}" by (auto simp: ran_def orders_at_def)
    with agree_None [OF agree, of p] obtain c where c: "map_of ?m p = Some c"
      by (cases "map_of ?m p") auto
    with pos [OF c] show "\<exists>c. map_of ?m p = Some c \<and> 1 \<le> sint c" by simp
  qed
  have 3: "\<forall>p \<in> fst ` set ?m. p \<in> ran ?om"
  proof
    fix p assume "p \<in> fst ` set ?m"
    then obtain c where "map_of ?m p = Some c"
      using dist by (auto simp: image_iff)
    from agree_Some_nonempty [OF agree this] show "p \<in> ran ?om"
      by (auto simp: ran_def orders_at_def)
  qed
  have 4: "\<forall>c \<in> snd ` set ?m. 0 < sint c"
  proof
    fix c assume "c \<in> snd ` set ?m"
    then obtain p where "map_of ?m p = Some c"
      using dist by (auto simp: image_iff)
    then show "0 < sint c" by (rule pos)
  qed
  from 1 2 3 4 show ?thesis by (simp add: PriceSet_invariant_def)
qed

lemma apply_events_append:
  "apply_events (xs @ ys) b =
     (case apply_events xs b of Inl f \<Rightarrow> Inl f | Inr b' \<Rightarrow> apply_events ys b')"
  by (induction xs arbitrary: b) (auto split: sum.splits)

lemma unat_id_eq:
  assumes "n < 2 ^ 32"
  shows "(i = (word_of_nat n :: cint)) = (unat i = n)"
proof
  assume "i = word_of_nat n"
  with assms show "unat i = n" by (simp add: unat_of_nat)
next
  assume "unat i = n"
  then have "word_of_nat (unat i) = (word_of_nat n :: cint)" by simp
  then show "i = word_of_nat n" by simp
qed

lemma same_price_inserts_state:
  "n \<le> 2 ^ 31 \<Longrightarrow>
   apply_events (same_price_inserts n) OrderBook_init =
     Inr \<lparr>order_price_map = (\<lambda>i. if unat i < n then Some 10 else None),
          price_count_map = (if n = 0 then [] else [(10, word_of_nat n)])\<rparr>"
proof (induction n)
  case 0
  then show ?case by (simp add: same_price_inserts_def OrderBook_init_def)
next
  case (Suc n)
  then have n: "n < 2 ^ 32" by simp
  have id: "(i = (word_of_nat n :: cint)) = (unat i = n)" for i
    using n by (rule unat_id_eq)
  have om: "(\<lambda>i :: cint. if unat i < n then Some (10 :: real) else None)(word_of_nat n \<mapsto> 10)
      = (\<lambda>i. if unat i < Suc n then Some 10 else None)"
    by (auto simp: fun_eq_iff id)
  have new: "\<not> unat (word_of_nat n :: cint) < n"
    using id [of "word_of_nat n"] by simp
  have "same_price_inserts (Suc n) = same_price_inserts n @ [Insert (word_of_nat n) 10]"
    by (simp add: same_price_inserts_def)
  with Suc show ?case
    by (simp add: apply_events_append insert_order_def map_insert_def new om)
qed

text \<open>
  C3, as the program has it. After every sequence of inserts and erases on an
  empty order book during which the number of live orders stays below \<open>2 ^ 31\<close>,
  no operation has faulted and the invariant of the price set holds: the counts
  add up to the number of live orders, the price of every live order is a key with
  a count of at least 1, every key is the price of a live order, and no count is
  zero or negative. The bound keeps the 32-bit count of a price from overflowing.
\<close>

theorem price_set_invariant_holds:
  "live_orders_below (2 ^ 31) evs OrderBook_init \<Longrightarrow> invariant_after evs"
proof -
  assume "live_orders_below (2 ^ 31) evs OrderBook_init"
  with book_ok_init obtain b where "apply_events evs OrderBook_init = Inr b" "book_ok b"
    using apply_events_ok by blast
  then show ?thesis
    by (simp add: invariant_after_def book_ok_invariant)
qed

theorem price_set_invariant_holds_witness:
  "live_orders_below (2 ^ 31)
      [Insert 1 10, Insert 2 10, Insert 3 11, Erase 2, Insert 1 33, Erase 7, Erase 1]
      OrderBook_init
   \<and> invariant_after
      [Insert 1 10, Insert 2 10, Insert 3 11, Erase 2, Insert 1 33, Erase 7, Erase 1]"
proof -
  have h: "live_orders_below (2 ^ 31)
      [Insert 1 10, Insert 2 10, Insert 3 11, Erase 2, Insert 1 33, Erase 7, Erase 1]
      OrderBook_init"
    by (simp add: insert_order_def erase_order_def map_insert_def OrderBook_init_def)
  from h price_set_invariant_holds [OF h] show ?thesis by (rule conjI)
qed

text \<open>
  Without the bound the claim fails. The \<open>2 ^ 31\<close> inserts of distinct order ids
  at the price 10 leave the count
  \<open>- 2 ^ 31\<close> at that price: the count of 2147483647 is incremented once more
  and wraps around. The invariant does not hold there.
\<close>

theorem count_overflows_at_one_price:
  "map_sum id price_count_map (apply_events (same_price_inserts (2 ^ 31)) OrderBook_init)
     = Inr [(10, - 2147483648)]
   \<and> sint (- 2147483648 :: cint) = - 2147483648
   \<and> \<not> invariant_after (same_price_inserts (2 ^ 31))"
  by (simp add: invariant_after_def same_price_inserts_state PriceSet_invariant_def)


section \<open>The running average against the reference mean\<close>

lemma new_total_time_nonzero:
  assumes "0 < sint tot" and "0 \<le> sint add_time"
  shows "double_of_int (tot + add_time) \<noteq> Val 0"
proof -
  have "tot + add_time \<noteq> 0"
  proof
    assume "tot + add_time = 0"
    then have "add_time = - tot" by (simp add: eq_neg_iff_add_eq_0 add.commute)
    then have "sint add_time = signed_take_bit 31 (- sint tot)"
      by (simp add: sint_word_ariths)
    also have "\<dots> = - sint tot"
      using sint_lt [of tot] assms(1) by (simp add: signed_take_bit_int_eq_self)
    finally show False using assms by simp
  qed
  then have "sint (tot + add_time) \<noteq> 0" by (simp only: signed_eq_0_iff not_False_eq_True)
  then have "real_of_int (sint (tot + add_time)) \<noteq> 0" by (simp only: of_int_eq_0_iff not_False_eq_True)
  then show ?thesis by (simp add: double_of_int_def del: of_int_sint)
qed


subsection \<open>Rounding to the nearest double\<close>

lemma round_half_even_close: "\<bar>real_of_int (round_half_even y) - y\<bar> \<le> 1 / 2"
  unfolding round_half_even_def by (auto simp: abs_if) linarith+

lemma round_half_even_le:
  assumes "y \<le> real_of_int n" shows "round_half_even y \<le> n"
proof (cases "\<lfloor>y\<rfloor> = n")
  case True
  with assms have "y - of_int \<lfloor>y\<rfloor> \<le> 0" by simp
  with True show ?thesis by (simp add: round_half_even_def)
next
  case False
  moreover have "\<lfloor>y\<rfloor> \<le> n" using assms by (simp add: floor_le_iff)
  ultimately have "\<lfloor>y\<rfloor> + 1 \<le> n" by simp
  then show ?thesis by (simp add: round_half_even_def)
qed

lemma round_half_even_ge:
  assumes "real_of_int n \<le> y" shows "n \<le> round_half_even y"
proof -
  have "n \<le> \<lfloor>y\<rfloor>" using assms by (simp add: le_floor_iff)
  then show ?thesis
    unfolding round_half_even_def by (auto split: if_splits)
qed

lemma round_half_even_abs_le:
  assumes "\<bar>y\<bar> \<le> real_of_int n" shows "\<bar>round_half_even y\<bar> \<le> n"
proof -
  from assms have "y \<le> real_of_int n" "real_of_int (- n) \<le> y" by simp_all
  then have "round_half_even y \<le> n" and "- n \<le> round_half_even y"
    by (simp_all add: round_half_even_le round_half_even_ge)
  then show ?thesis by simp
qed

lemma powr_floor_log_le: "0 < z \<Longrightarrow> 2 powr real_of_int \<lfloor>log 2 z\<rfloor> \<le> z"
proof -
  assume z: "0 < z"
  have "2 powr real_of_int \<lfloor>log 2 z\<rfloor> \<le> 2 powr log 2 z"
    by (rule powr_mono) simp_all
  with z show ?thesis by simp
qed

lemma less_powr_floor_log: "0 < z \<Longrightarrow> z < 2 powr real_of_int (\<lfloor>log 2 z\<rfloor> + 1)"
proof -
  assume z: "0 < z"
  have "log 2 z < real_of_int (\<lfloor>log 2 z\<rfloor> + 1)" by linarith
  then have "2 powr log 2 z < 2 powr real_of_int (\<lfloor>log 2 z\<rfloor> + 1)"
    by (rule powr_less_mono) simp
  with z show ?thesis by simp
qed

lemma spacing_pos: "0 < spacing x"
  by (simp add: spacing_def)

lemma spacing_normal:
  assumes "x \<noteq> 0" and "- 1022 \<le> \<lfloor>log 2 \<bar>x\<bar>\<rfloor>"
  shows "spacing x \<le> \<bar>x\<bar> / 2 ^ 52"
proof -
  let ?k = "\<lfloor>log 2 \<bar>x\<bar>\<rfloor>"
  from assms(2) have m: "max ?k (- 1022) = ?k" by simp
  have "spacing x = 2 powr (real_of_int ?k - 52)"
    unfolding spacing_def m by simp
  also have "\<dots> = 2 powr real_of_int ?k / 2 powr 52"
    by (rule powr_diff)
  also have "\<dots> \<le> \<bar>x\<bar> / 2 powr 52"
    using powr_floor_log_le [of "\<bar>x\<bar>"] assms by (intro divide_right_mono) simp_all
  also have "(2 :: real) powr 52 = 2 ^ 52"
    by simp
  finally show ?thesis .
qed

lemma spacing_subnormal:
  assumes "\<not> - 1022 \<le> \<lfloor>log 2 \<bar>x\<bar>\<rfloor>"
  shows "spacing x = 2 powr (- 1074)"
proof -
  from assms have m: "max \<lfloor>log 2 \<bar>x\<bar>\<rfloor> (- 1022) = - 1022" by simp
  have "spacing x = 2 powr real_of_int (- 1022 - 52)"
    unfolding spacing_def m ..
  then show ?thesis by simp
qed

lemma half_min_double_eq: "(2 :: real) powr (- 1074) / 2 = half_min_double"
proof -
  have "(2 :: real) powr (- 1074 - 1) = 2 powr (- 1074) / 2 powr 1"
    by (rule powr_diff)
  then show ?thesis by (simp add: half_min_double_def)
qed

lemma half_spacing_le:
  assumes "x \<noteq> 0"
  shows "spacing x / 2 \<le> unit_roundoff * \<bar>x\<bar> + half_min_double"
proof (cases "- 1022 \<le> \<lfloor>log 2 \<bar>x\<bar>\<rfloor>")
  case True
  from spacing_normal [OF assms True]
  have "spacing x / 2 \<le> unit_roundoff * \<bar>x\<bar>"
    by (simp add: unit_roundoff_def)
  moreover have "0 \<le> half_min_double" by (simp add: half_min_double_def)
  ultimately show ?thesis by linarith
next
  case False
  from spacing_subnormal [OF False] half_min_double_eq
  have "spacing x / 2 = half_min_double"
    by simp
  moreover have "0 \<le> unit_roundoff * \<bar>x\<bar>" by (simp add: unit_roundoff_def)
  ultimately show ?thesis by linarith
qed

lemma round_double_error:
  assumes "round_double x = Val r"
  shows "\<bar>r - x\<bar> \<le> unit_roundoff * \<bar>x\<bar> + half_min_double"
proof (cases "x = 0")
  case True
  with assms show ?thesis by (simp add: round_double_def half_min_double_def)
next
  case False
  let ?q = "spacing x"
  let ?m = "round_half_even (x / ?q)"
  from assms False have r: "r = of_int ?m * ?q"
    by (simp add: round_double_def Let_def split: if_splits)
  have "\<bar>of_int ?m - x / ?q\<bar> * ?q \<le> 1 / 2 * ?q"
    using round_half_even_close [of "x / ?q"] spacing_pos [of x]
    by (intro mult_right_mono) simp_all
  also have "\<bar>of_int ?m - x / ?q\<bar> * ?q = \<bar>of_int ?m * ?q - x\<bar>"
  proof -
    have "\<bar>of_int ?m - x / ?q\<bar> * ?q = \<bar>(of_int ?m - x / ?q) * ?q\<bar>"
      using spacing_pos [of x] by (simp add: abs_mult)
    also have "(of_int ?m - x / ?q) * ?q = of_int ?m * ?q - x"
      using spacing_pos [of x] by (simp add: field_simps)
    finally show ?thesis .
  qed
  finally have "\<bar>r - x\<bar> \<le> ?q / 2" by (simp add: r)
  with half_spacing_le [OF False] show ?thesis by simp
qed


lemma max_double_ge: "2 powr 1023 \<le> max_double"
  by (simp add: max_double_def)

lemma max_double_pos: "0 < max_double"
  using max_double_ge by (smt (verit) powr_gt_zero)

lemma floor_log_le_1023:
  assumes "x \<noteq> 0" and "\<bar>x\<bar> \<le> max_double"
  shows "\<lfloor>log 2 \<bar>x\<bar>\<rfloor> \<le> 1023"
proof -
  have "max_double < 2 powr 1024" by (simp add: max_double_def)
  with assms have "\<bar>x\<bar> < 2 powr 1024" by simp
  then have "log 2 \<bar>x\<bar> < 1024"
    using assms(1) by (simp add: log_less_iff)
  then show ?thesis by linarith
qed

lemma round_double_finite:
  assumes "\<bar>x\<bar> \<le> max_double"
  shows "\<exists>r. round_double x = Val r"
proof (cases "x = 0")
  case True
  then show ?thesis by (simp add: round_double_def)
next
  case False
  define k where "k = \<lfloor>log 2 \<bar>x\<bar>\<rfloor>"
  define e where "e = max k (- 1022) - 52"
  define q where "q = spacing x"
  define m where "m = round_half_even (x / q)"
  have q: "q = 2 powr real_of_int e" by (simp add: q_def spacing_def e_def k_def)
  have qpos: "0 < q" unfolding q_def by (rule spacing_pos)
  from floor_log_le_1023 [OF False assms] have e: "e \<le> 971" by (simp add: e_def k_def)
  have ke: "k \<le> e + 52" by (simp add: e_def)
  have "\<bar>real_of_int m * q\<bar> \<le> max_double"
  proof (cases "e = 971")
    case True
    have "q = 2 powr 971" by (simp only: q True) simp
    then have md: "max_double = (2 ^ 53 - 1) * q"
      by (simp add: max_double_def)
    have "\<bar>x / q\<bar> = \<bar>x\<bar> / q" using qpos by simp
    also have "\<dots> \<le> 2 ^ 53 - 1"
      using assms qpos unfolding md by (simp only: pos_divide_le_eq)
    finally have "\<bar>x / q\<bar> \<le> real_of_int (2 ^ 53 - 1)" by simp
    then have "\<bar>m\<bar> \<le> 2 ^ 53 - 1" unfolding m_def by (rule round_half_even_abs_le)
    then have "real_of_int \<bar>m\<bar> \<le> real_of_int (2 ^ 53 - 1)"
      by (simp only: of_int_le_iff)
    then have "\<bar>real_of_int m\<bar> \<le> 2 ^ 53 - 1" by simp
    then have "\<bar>real_of_int m\<bar> * q \<le> (2 ^ 53 - 1) * q"
      using qpos by (intro mult_right_mono) simp_all
    moreover have "\<bar>real_of_int m * q\<bar> = \<bar>real_of_int m\<bar> * q"
      using qpos by (simp add: abs_mult)
    ultimately show ?thesis
      unfolding md by (simp only:)
  next
    case False
    with e have e970: "e \<le> 970" by simp
    have "\<bar>x\<bar> < 2 powr real_of_int (k + 1)"
      unfolding k_def using less_powr_floor_log [of "\<bar>x\<bar>"] \<open>x \<noteq> 0\<close> by simp
    also have "\<dots> \<le> 2 powr real_of_int (e + 53)"
      using ke by (intro powr_mono) simp_all
    also have "\<dots> = 2 powr real_of_int e * 2 powr 53"
      by (simp add: powr_add)
    finally have "\<bar>x\<bar> < q * 2 powr 53" by (simp only: q)
    then have "\<bar>x\<bar> / q < 2 powr 53"
      using qpos by (simp add: pos_divide_less_eq mult.commute)
    then have "\<bar>x / q\<bar> \<le> real_of_int (2 ^ 53)"
      using qpos by simp
    then have "\<bar>m\<bar> \<le> 2 ^ 53" unfolding m_def by (rule round_half_even_abs_le)
    then have "real_of_int \<bar>m\<bar> \<le> real_of_int (2 ^ 53)"
      by (simp only: of_int_le_iff)
    then have "\<bar>real_of_int m\<bar> \<le> 2 powr 53" by simp
    then have "\<bar>real_of_int m\<bar> * q \<le> 2 powr 53 * q"
      using qpos by (intro mult_right_mono) simp_all
    also have "\<dots> = 2 powr (53 + real_of_int e)"
      by (simp only: q powr_add)
    also have "\<dots> \<le> 2 powr 1023"
      using e970 by (intro powr_mono) simp_all
    also note max_double_ge
    finally have "\<bar>real_of_int m\<bar> * q \<le> max_double" .
    moreover have "\<bar>real_of_int m * q\<bar> = \<bar>real_of_int m\<bar> * q"
      using qpos by (simp add: abs_mult)
    ultimately show ?thesis by (simp only:)
  qed
  then have "\<not> max_double < real_of_int m * q" "\<not> real_of_int m * q < - max_double"
    by (simp_all only: abs_le_iff not_less) linarith+
  with \<open>x \<noteq> 0\<close> show ?thesis
    unfolding round_double_def Let_def m_def q_def by (simp only: if_False) blast
qed

lemma round_double_ok:
  assumes "\<bar>x\<bar> \<le> max_double"
  obtains r where "round_double x = Val r"
    and "\<bar>r - x\<bar> \<le> unit_roundoff * \<bar>x\<bar> + half_min_double"
  using round_double_finite [OF assms] round_double_error by blast


lemma round_chain:
  fixes u h :: real
  assumes "\<bar>X - t\<bar> \<le> e" and "\<bar>r - X\<bar> \<le> u * \<bar>X\<bar> + h" and "0 \<le> u"
  shows "\<bar>r - t\<bar> \<le> e + u * (\<bar>t\<bar> + e) + h"
proof -
  have "\<bar>X\<bar> \<le> \<bar>t\<bar> + e" using assms(1) by linarith
  then have "u * \<bar>X\<bar> \<le> u * (\<bar>t\<bar> + e)" using assms(3) by (rule mult_left_mono)
  with assms(1,2) show ?thesis by linarith
qed

lemma scaled_quotient_le:
  fixes a w n B :: real
  assumes "\<bar>a\<bar> \<le> B" "0 \<le> w" "w \<le> n" "0 < n"
  shows "\<bar>a / n\<bar> * w \<le> \<bar>a\<bar> * (w / n)" "\<bar>a\<bar> * (w / n) \<le> B * (w / n)" "w / n \<le> 1"
proof -
  show "\<bar>a / n\<bar> * w \<le> \<bar>a\<bar> * (w / n)" using assms by simp
  show "\<bar>a\<bar> * (w / n) \<le> B * (w / n)" using assms by (intro mult_right_mono) simp_all
  show "w / n \<le> 1" using assms by simp
qed

lemma term_error:
  fixes u h :: real
  assumes u: "0 \<le> u" and h: "0 \<le> h"
    and x: "\<bar>x - q\<bar> \<le> u * \<bar>q\<bar> + h"
    and y: "\<bar>y - x * w\<bar> \<le> u * \<bar>x * w\<bar> + h"
    and w: "0 \<le> w"
  shows "\<bar>y - q * w\<bar> \<le> ((1 + u)\<^sup>2 - 1) * (\<bar>q\<bar> * w) + h * ((1 + u) * w + 1)"
    and "\<bar>x * w\<bar> \<le> (1 + u) * (\<bar>q\<bar> * w) + h * w"
proof -
  define A where "A = \<bar>q\<bar> * w"
  have A: "\<bar>q * w\<bar> = A" using w by (simp add: A_def abs_mult)
  have "x * w - q * w = (x - q) * w" by (simp add: algebra_simps)
  then have "\<bar>x * w - q * w\<bar> = \<bar>x - q\<bar> * \<bar>w\<bar>"
    by (simp only: abs_mult)
  also have "\<dots> = \<bar>x - q\<bar> * w" using w by simp
  also have "\<dots> \<le> (u * \<bar>q\<bar> + h) * w"
    using x w by (rule mult_right_mono)
  also have "\<dots> = u * A + h * w"
    by (simp add: A_def algebra_simps)
  finally have xw: "\<bar>x * w - q * w\<bar> \<le> u * A + h * w" .
  from round_chain [OF xw y u] A
  have "\<bar>y - q * w\<bar> \<le> u * A + h * w + u * (A + (u * A + h * w)) + h" by simp
  also have "\<dots> = ((1 + u)\<^sup>2 - 1) * A + h * ((1 + u) * w + 1)"
    by (simp add: algebra_simps power2_eq_square)
  finally show "\<bar>y - q * w\<bar> \<le> ((1 + u)\<^sup>2 - 1) * (\<bar>q\<bar> * w) + h * ((1 + u) * w + 1)"
    unfolding A_def .
  from xw A have "\<bar>x * w\<bar> \<le> A + (u * A + h * w)" by linarith
  also have "\<dots> = (1 + u) * A + h * w" by (simp add: algebra_simps)
  finally show "\<bar>x * w\<bar> \<le> (1 + u) * (\<bar>q\<bar> * w) + h * w"
    unfolding A_def .
qed

lemma blend_error_real:
  fixes u h :: real
  assumes u: "0 \<le> u" and h: "0 \<le> h"
    and x1: "\<bar>x1 - q1\<bar> \<le> u * \<bar>q1\<bar> + h"
    and y1: "\<bar>y1 - x1 * w\<bar> \<le> u * \<bar>x1 * w\<bar> + h"
    and x2: "\<bar>x2 - q2\<bar> \<le> u * \<bar>q2\<bar> + h"
    and y2: "\<bar>y2 - x2 * d\<bar> \<le> u * \<bar>x2 * d\<bar> + h"
    and r: "\<bar>r - (y1 + y2)\<bar> \<le> u * \<bar>y1 + y2\<bar> + h"
    and w: "0 \<le> w" and d: "0 \<le> d"
    and AB: "\<bar>q1\<bar> * w + \<bar>q2\<bar> * d \<le> B"
  shows "\<bar>r - (q1 * w + q2 * d)\<bar>
           \<le> ((1 + u) ^ 3 - 1) * B + h * ((1 + u)\<^sup>2 * (w + d) + 2 * (1 + u) + 1)"
    and "\<bar>y1 + y2\<bar> \<le> (1 + u)\<^sup>2 * B + h * ((1 + u) * (w + d) + 2)"
proof -
  define A1 where "A1 = \<bar>q1\<bar> * w"
  define A2 where "A2 = \<bar>q2\<bar> * d"
  define U where "U = 1 + u"
  have U: "1 \<le> U" using u by (simp add: U_def)
  have A1: "0 \<le> A1" using w by (simp add: A1_def)
  have A2: "0 \<le> A2" using d by (simp add: A2_def)
  note t1 = term_error [OF u h x1 y1 w, folded A1_def U_def]
  note t2 = term_error [OF u h x2 y2 d, folded A2_def U_def]
  have t: "\<bar>q1 * w + q2 * d\<bar> \<le> A1 + A2"
    using w d by (simp add: A1_def A2_def abs_mult abs_triangle_ineq [THEN order_trans])
  have s: "\<bar>(y1 + y2) - (q1 * w + q2 * d)\<bar>
      \<le> (U\<^sup>2 - 1) * (A1 + A2) + h * (U * (w + d) + 2)"
    using t1(1) t2(1) by (simp add: algebra_simps)
  have "\<bar>y1 + y2\<bar> \<le> (A1 + A2) + ((U\<^sup>2 - 1) * (A1 + A2) + h * (U * (w + d) + 2))"
    using s t by linarith
  also have "\<dots> = U\<^sup>2 * (A1 + A2) + h * (U * (w + d) + 2)"
    by (simp add: algebra_simps)
  also have "\<dots> \<le> U\<^sup>2 * B + h * (U * (w + d) + 2)"
    using AB by (simp add: A1_def A2_def mult_left_mono)
  finally show "\<bar>y1 + y2\<bar> \<le> (1 + u)\<^sup>2 * B + h * ((1 + u) * (w + d) + 2)"
    unfolding U_def .
  from round_chain [OF s r u]
  have "\<bar>r - (q1 * w + q2 * d)\<bar>
      \<le> (U\<^sup>2 - 1) * (A1 + A2) + h * (U * (w + d) + 2)
        + u * (\<bar>q1 * w + q2 * d\<bar> + ((U\<^sup>2 - 1) * (A1 + A2) + h * (U * (w + d) + 2))) + h" .
  also have "\<dots> \<le> (U\<^sup>2 - 1) * (A1 + A2) + h * (U * (w + d) + 2)
        + u * ((A1 + A2) + ((U\<^sup>2 - 1) * (A1 + A2) + h * (U * (w + d) + 2))) + h"
    using t u by (simp add: mult_left_mono)
  also have "\<dots> = (U ^ 3 - 1) * (A1 + A2) + h * (U\<^sup>2 * (w + d) + 2 * U + 1)"
    by (simp add: U_def algebra_simps power2_eq_square power3_eq_cube)
  also have "\<dots> \<le> (U ^ 3 - 1) * B + h * (U\<^sup>2 * (w + d) + 2 * U + 1)"
  proof -
    have "0 \<le> U ^ 3 - 1" using U by (simp add: one_le_power)
    then have "(U ^ 3 - 1) * (A1 + A2) \<le> (U ^ 3 - 1) * B"
      using AB unfolding A1_def A2_def by (rule mult_left_mono [rotated])
    then show ?thesis by simp
  qed
  finally show "\<bar>r - (q1 * w + q2 * d)\<bar>
           \<le> ((1 + u) ^ 3 - 1) * B + h * ((1 + u)\<^sup>2 * (w + d) + 2 * (1 + u) + 1)"
    unfolding U_def .
qed



lemma unit_roundoff_bounds: "0 \<le> unit_roundoff" "unit_roundoff \<le> 1"
  by (simp_all add: unit_roundoff_def)

lemma half_min_double_nonneg: "0 \<le> half_min_double"
  by (simp add: half_min_double_def)

lemma underflow_slack_nonneg: "0 \<le> underflow_slack"
  by (simp add: underflow_slack_def)

lemma tiny_le_slack: "half_min_double * 2 ^ 34 \<le> unit_roundoff * underflow_slack"
proof -
  have a: "(2 :: real) powr (- 1075) * 2 powr 87 = 2 powr (- 1075 + 87)"
    by (rule powr_add [symmetric])
  have b: "(2 :: real) powr (- 1075 + 87) \<le> 2 powr (- 980)"
    by (rule powr_mono) simp_all
  have c: "(2 :: real) powr 87 = 2 ^ 34 * 2 ^ 53" by simp
  from a b c have "half_min_double * (2 ^ 34 * 2 ^ 53) \<le> underflow_slack"
    unfolding half_min_double_def underflow_slack_def by (simp only:)
  then show ?thesis
    unfolding unit_roundoff_def by (simp add: field_simps)
qed


lemma blend_error:
  fixes a v B :: real and W d :: int
  assumes a: "\<bar>a\<bar> \<le> B" and v: "\<bar>v\<bar> \<le> B"
    and W: "0 < W" and d: "0 \<le> d" and N: "W + d < 2 ^ 31"
    and ovf: "(1 + unit_roundoff) ^ 3 * (B + underflow_slack) \<le> max_double"
  shows "\<exists>r. dadd (dmul (ddiv (Val a) (Val (real_of_int (W + d)))) (Val (real_of_int W)))
                  (dmul (ddiv (Val v) (Val (real_of_int (W + d)))) (Val (real_of_int d)))
               = Val r
             \<and> \<bar>r - (a * real_of_int W + v * real_of_int d) / real_of_int (W + d)\<bar>
                 \<le> ((1 + unit_roundoff) ^ 3 - 1) * (B + underflow_slack)"
proof -
  define u where "u = unit_roundoff"
  define h where "h = half_min_double"
  define s where "s = underflow_slack"
  define U where "U = 1 + u"
  define n where "n = real_of_int (W + d)"
  define w where "w = real_of_int W"
  define dd where "dd = real_of_int d"
  have u: "0 \<le> u" "u \<le> 1" using unit_roundoff_bounds by (simp_all add: u_def)
  have h: "0 \<le> h" using half_min_double_nonneg by (simp add: h_def)
  have s: "0 \<le> s" using underflow_slack_nonneg by (simp add: s_def)
  have hs: "h * 2 ^ 34 \<le> u * s" using tiny_le_slack by (simp add: h_def u_def s_def)
  have U: "1 \<le> U" "U \<le> 2" using u by (simp_all add: U_def)
  have B: "0 \<le> B" using a by linarith
  have w: "0 \<le> w" "w \<le> n" using W d by (simp_all add: w_def n_def)
  have dd: "0 \<le> dd" "dd \<le> n" using W d by (simp_all add: dd_def n_def)
  have n: "1 \<le> n" "n \<le> 2 ^ 31" "n = w + dd"
  proof -
    have "1 \<le> W + d" using W d by linarith
    then show "1 \<le> n" unfolding n_def by (simp only: of_int_1_le_iff)
    have "W + d \<le> 2 ^ 31" using N by simp
    then have "real_of_int (W + d) \<le> real_of_int (2 ^ 31)" by (simp only: of_int_le_iff)
    then show "n \<le> 2 ^ 31" by (simp add: n_def)
    show "n = w + dd" by (simp add: n_def w_def dd_def)
  qed
  have npos: "0 < n" using n(1) by linarith
  have us: "u * s \<le> s" using u s by (simp add: mult_left_le_one_le)
  have hsmall: "h * 2 ^ 34 \<le> s" using hs us by linarith
  have Bs: "0 \<le> B + s" using B s by simp
  have U2: "1 \<le> U\<^sup>2" "U\<^sup>2 \<le> 4"
  proof -
    show "1 \<le> U\<^sup>2" using U(1) by (rule one_le_power)
    have "U\<^sup>2 \<le> 2\<^sup>2" using U by (intro power_mono) simp_all
    then show "U\<^sup>2 \<le> 4" by simp
  qed
  have U3: "U \<le> U ^ 3" "U\<^sup>2 \<le> U ^ 3"
  proof -
    have "U ^ 1 \<le> U ^ 3" using U(1) by (intro power_increasing) simp_all
    then show "U \<le> U ^ 3" by simp
    show "U\<^sup>2 \<le> U ^ 3" using U(1) by (intro power_increasing) simp_all
  qed
  have K: "U ^ 3 * (B + s) \<le> max_double"
    using ovf by (simp add: U_def u_def s_def)
  have K1: "U * (B + s) \<le> max_double"
    using mult_right_mono [OF U3(1) Bs] K by linarith
  have K2: "U\<^sup>2 * (B + s) \<le> max_double"
    using mult_right_mono [OF U3(2) Bs] K by linarith
  have K0: "B \<le> max_double"
  proof -
    have "1 * (B + s) \<le> U * (B + s)" using U(1) Bs by (rule mult_right_mono)
    then have "B + s \<le> U * (B + s)" by simp
    also note K1
    finally show ?thesis using s by simp
  qed
  \<comment> \<open>the two quotients\<close>
  define q1 where "q1 = a / n"
  define q2 where "q2 = v / n"
  define f1 where "f1 = w / n"
  define f2 where "f2 = dd / n"
  have q1w: "\<bar>q1\<bar> * w = \<bar>a\<bar> * f1" and q2d: "\<bar>q2\<bar> * dd = \<bar>v\<bar> * f2"
    using npos by (simp_all add: q1_def q2_def f1_def f2_def)
  have wn: "0 \<le> f1" "0 \<le> f2" "f1 + f2 = 1"
    using w dd npos n(3) by (simp_all add: f1_def f2_def add_divide_distrib [symmetric])
  have A1: "\<bar>q1\<bar> * w \<le> B * f1"
    unfolding q1w using a wn(1) by (rule mult_right_mono)
  have A2: "\<bar>q2\<bar> * dd \<le> B * f2"
    unfolding q2d using v wn(2) by (rule mult_right_mono)
  have "B * f1 + B * f2 = B * (f1 + f2)"
    by (rule distrib_left [symmetric])
  then have "B * f1 + B * f2 = B" by (simp only: wn(3) mult_1_right)
  with A1 A2 have AB: "\<bar>q1\<bar> * w + \<bar>q2\<bar> * dd \<le> B" by linarith
  have "0 \<le> \<bar>q1\<bar> * w" "0 \<le> \<bar>q2\<bar> * dd"
    using w(1) dd(1) by simp_all
  with AB have A1B: "\<bar>q1\<bar> * w \<le> B" and A2B: "\<bar>q2\<bar> * dd \<le> B"
    by linarith+
  have q1B: "\<bar>q1\<bar> \<le> max_double"
  proof -
    have "\<bar>q1\<bar> = \<bar>a\<bar> / n" using npos by (simp add: q1_def)
    also have "\<dots> \<le> \<bar>a\<bar> / 1" using n(1) by (intro divide_left_mono) simp_all
    finally show ?thesis using a K0 by simp
  qed
  have q2B: "\<bar>q2\<bar> \<le> max_double"
  proof -
    have "\<bar>q2\<bar> = \<bar>v\<bar> / n" using npos by (simp add: q2_def)
    also have "\<dots> \<le> \<bar>v\<bar> / 1" using n(1) by (intro divide_left_mono) simp_all
    finally show ?thesis using v K0 by simp
  qed
  from round_double_ok [OF q1B] obtain x1 where x1: "round_double q1 = Val x1"
    and x1e: "\<bar>x1 - q1\<bar> \<le> u * \<bar>q1\<bar> + h" unfolding u_def h_def by blast
  from round_double_ok [OF q2B] obtain x2 where x2: "round_double q2 = Val x2"
    and x2e: "\<bar>x2 - q2\<bar> \<le> u * \<bar>q2\<bar> + h" unfolding u_def h_def by blast
  \<comment> \<open>the two products\<close>
  have hw: "h * w \<le> s" "h * dd \<le> s"
  proof -
    have "w \<le> 2 ^ 34" "dd \<le> 2 ^ 34" using w dd n(2) by simp_all
    then have "h * w \<le> h * 2 ^ 34" "h * dd \<le> h * 2 ^ 34"
      using h by (simp_all add: mult_left_mono)
    with hsmall show "h * w \<le> s" "h * dd \<le> s" by linarith+
  qed
  have p1B: "\<bar>x1 * w\<bar> \<le> max_double"
  proof -
    have "\<bar>x1 * w\<bar> \<le> \<bar>q1\<bar> * w + (u * \<bar>q1\<bar> + h) * w"
    proof -
      have "\<bar>x1\<bar> \<le> \<bar>q1\<bar> + (u * \<bar>q1\<bar> + h)" using x1e by linarith
      then have "\<bar>x1\<bar> * w \<le> (\<bar>q1\<bar> + (u * \<bar>q1\<bar> + h)) * w"
        using w(1) by (rule mult_right_mono)
      then show ?thesis using w(1) by (simp add: abs_mult algebra_simps)
    qed
    also have "\<dots> = U * (\<bar>q1\<bar> * w) + h * w" by (simp add: U_def algebra_simps)
    also have "\<dots> \<le> U * B + s"
      using A1B hw(1) U(1) by (simp add: mult_left_mono add_mono)
    also have "\<dots> \<le> U * (B + s)"
      using U(1) s by (simp add: algebra_simps mult_right_mono [of 1 U s, simplified])
    finally show ?thesis using K1 by linarith
  qed
  have p2B: "\<bar>x2 * dd\<bar> \<le> max_double"
  proof -
    have "\<bar>x2 * dd\<bar> \<le> \<bar>q2\<bar> * dd + (u * \<bar>q2\<bar> + h) * dd"
    proof -
      have "\<bar>x2\<bar> \<le> \<bar>q2\<bar> + (u * \<bar>q2\<bar> + h)" using x2e by linarith
      then have "\<bar>x2\<bar> * dd \<le> (\<bar>q2\<bar> + (u * \<bar>q2\<bar> + h)) * dd"
        using dd(1) by (rule mult_right_mono)
      then show ?thesis using dd(1) by (simp add: abs_mult algebra_simps)
    qed
    also have "\<dots> = U * (\<bar>q2\<bar> * dd) + h * dd" by (simp add: U_def algebra_simps)
    also have "\<dots> \<le> U * B + s"
      using A2B hw(2) U(1) by (simp add: mult_left_mono add_mono)
    also have "\<dots> \<le> U * (B + s)"
      using U(1) s by (simp add: algebra_simps mult_right_mono [of 1 U s, simplified])
    finally show ?thesis using K1 by linarith
  qed
  from round_double_ok [OF p1B] obtain y1 where y1: "round_double (x1 * w) = Val y1"
    and y1e: "\<bar>y1 - x1 * w\<bar> \<le> u * \<bar>x1 * w\<bar> + h" unfolding u_def h_def by blast
  from round_double_ok [OF p2B] obtain y2 where y2: "round_double (x2 * dd) = Val y2"
    and y2e: "\<bar>y2 - x2 * dd\<bar> \<le> u * \<bar>x2 * dd\<bar> + h" unfolding u_def h_def by blast
  \<comment> \<open>the sum\<close>
  have r_any: "\<bar>r - (y1 + y2)\<bar> \<le> u * \<bar>y1 + y2\<bar> + h \<Longrightarrow>
      \<bar>y1 + y2\<bar> \<le> U\<^sup>2 * B + h * (U * (w + dd) + 2)" for r
    using blend_error_real(2) [OF u(1) h x1e y1e x2e y2e _ w(1) dd(1) AB, of r]
    by (simp add: U_def)
  have sumB: "\<bar>y1 + y2\<bar> \<le> max_double"
  proof -
    have "\<bar>y1 + y2 - (y1 + y2)\<bar> \<le> u * \<bar>y1 + y2\<bar> + h"
      using u(1) h by simp
    from r_any [OF this]
    have "\<bar>y1 + y2\<bar> \<le> U\<^sup>2 * B + h * (U * (w + dd) + 2)" .
    also have "h * (U * (w + dd) + 2) \<le> h * 2 ^ 34"
    proof -
      have "U * n \<le> 2 * 2 ^ 31" using U n npos by (intro mult_mono) simp_all
      then have "U * (w + dd) + 2 \<le> 2 ^ 34" using n(3) by simp
      then show ?thesis using h by (rule mult_left_mono)
    qed
    also have "U\<^sup>2 * B + h * 2 ^ 34 \<le> U\<^sup>2 * B + U\<^sup>2 * s"
      using hsmall s U2(1) mult_right_mono [of 1 "U\<^sup>2" s] by simp
    also have "\<dots> = U\<^sup>2 * (B + s)" by (simp add: algebra_simps)
    finally show ?thesis using K2 by linarith
  qed
  from round_double_ok [OF sumB] obtain r where r: "round_double (y1 + y2) = Val r"
    and re: "\<bar>r - (y1 + y2)\<bar> \<le> u * \<bar>y1 + y2\<bar> + h" unfolding u_def h_def by blast
  from blend_error_real(1) [OF u(1) h x1e y1e x2e y2e re w(1) dd(1) AB]
  have "\<bar>r - (q1 * w + q2 * dd)\<bar>
      \<le> (U ^ 3 - 1) * B + h * (U\<^sup>2 * (w + dd) + 2 * U + 1)"
    by (simp add: U_def)
  also have "h * (U\<^sup>2 * (w + dd) + 2 * U + 1) \<le> h * 2 ^ 34"
  proof -
    have "U\<^sup>2 * n \<le> 4 * 2 ^ 31" using U2 n npos by (intro mult_mono) simp_all
    then have "U\<^sup>2 * (w + dd) + 2 * U + 1 \<le> 2 ^ 34" using n(3) U(2) by simp
    then show ?thesis using h by (rule mult_left_mono)
  qed
  also have "(U ^ 3 - 1) * B + h * 2 ^ 34 \<le> (U ^ 3 - 1) * B + (U ^ 3 - 1) * s"
  proof -
    have "u \<le> U ^ 3 - 1" using U3(1) by (simp add: U_def)
    then have "u * s \<le> (U ^ 3 - 1) * s" using s by (rule mult_right_mono)
    with hs show ?thesis by linarith
  qed
  also have "\<dots> = (U ^ 3 - 1) * (B + s)" by (simp add: algebra_simps)
  finally have err: "\<bar>r - (q1 * w + q2 * dd)\<bar> \<le> (U ^ 3 - 1) * (B + s)" by simp
  have target: "q1 * w + q2 * dd = (a * w + v * dd) / n"
    by (simp add: q1_def q2_def add_divide_distrib)
  have n0: "n \<noteq> 0" using npos by simp
  have "dadd (dmul (ddiv (Val a) (Val n)) (Val w)) (dmul (ddiv (Val v) (Val n)) (Val dd)) = Val r"
    using n0 by (simp add: x1 [unfolded q1_def] x2 [unfolded q2_def] y1 y2 r)
  moreover have "\<bar>r - (a * w + v * dd) / n\<bar> \<le> (U ^ 3 - 1) * (B + s)"
    using err unfolding target .
  ultimately have "dadd (dmul (ddiv (Val a) (Val n)) (Val w)) (dmul (ddiv (Val v) (Val n)) (Val dd))
        = Val r \<and> \<bar>r - (a * w + v * dd) / n\<bar> \<le> (U ^ 3 - 1) * (B + s)"
    by (rule conjI)
  then show ?thesis
    unfolding U_def u_def s_def n_def w_def dd_def by (rule exI)
qed


end
